theory Spec2Isabelle
  imports Complex_Main "HOL-Library.Log_Nat"
begin

section \<open>Values of numpy's float64 arrays\<close>

text \<open>
  An entry of a float64 array is a finite number, a zero of either sign, one of the two
  infinities, or NaN. \<open>Fin x\<close> is the finite value \<open>x\<close> (\<open>Fin 0\<close> is \<open>+0.0\<close>) and
  \<open>NZero\<close> is \<open>-0.0\<close>. The finite values a float64 can hold are the rationals that
  \<open>round64\<close> below returns; every arithmetic operation rounds its exact result to one
  of them, to the nearest with ties to the even significand, as IEEE 754 binary64 does.
\<close>

datatype npfloat = Fin rat | NZero | PInf | NInf | NaN

datatype py_error = ValueError | IndexError | ZeroDivisionError | LinAlgError

fun sign_bit :: "npfloat \<Rightarrow> bool" where
  "sign_bit (Fin x) = (x < 0)"
| "sign_bit NZero = True"
| "sign_bit PInf = False"
| "sign_bit NInf = True"
| "sign_bit NaN = False"

fun is_inf :: "npfloat \<Rightarrow> bool" where
  "is_inf PInf = True"
| "is_inf NInf = True"
| "is_inf a = False"

text \<open>The number a finite entry stands for (both zeros stand for 0).\<close>

fun finite_value :: "npfloat \<Rightarrow> rat" where
  "finite_value (Fin x) = x"
| "finite_value a = 0"

fun np_inf :: "bool \<Rightarrow> npfloat" where
  "np_inf neg = (if neg then NInf else PInf)"

fun np_zero :: "bool \<Rightarrow> npfloat" where
  "np_zero neg = (if neg then NZero else Fin 0)"

subsection \<open>Rounding to binary64\<close>

text \<open>
  \<open>ilog2 a\<close> is the integer \<open>e\<close> with \<open>2^e \<le> a < 2^(e+1)\<close>, for \<open>a > 0\<close>: the bit lengths
  of numerator and denominator give it up to one, and a comparison decides.
\<close>

definition ilog2 :: "rat \<Rightarrow> int" where
  "ilog2 a =
     (let (p, q) = quotient_of a; d = bitlen p - bitlen q
      in if 2 powi d \<le> a then d else d - 1)"

definition round_half_even :: "rat \<Rightarrow> int" where
  "round_half_even t =
     (let f = \<lfloor>t\<rfloor>; d = t - of_int f
      in if d < 1 / 2 then f else if 1 / 2 < d then f + 1 else if even f then f else f + 1)"

text \<open>
  A magnitude \<open>a \<ge> 0\<close> is rounded to a multiple of the unit in the last place of its
  binade: 53 significant bits, exponents from -1022 (below that the spacing stays
  \<open>2^-1074\<close>, the subnormal numbers) to 1023. A rounded result of \<open>2^1024\<close> or more, that
  is, of exponent above 1023, does not fit: the operation overflows to an infinity.
\<close>

definition round_magnitude :: "rat \<Rightarrow> rat option" where
  "round_magnitude a =
     (if a = 0 then Some 0
      else let e = max (ilog2 a) (- 1022);
               ulp = 2 powi (e - 52);
               y = of_int (round_half_even (a / ulp)) * ulp
           in if y = 0 then Some 0 else if 1023 < ilog2 y then None else Some y)"

definition round64 :: "bool \<Rightarrow> rat \<Rightarrow> npfloat" where
  "round64 neg a =
     (case round_magnitude a of
        None \<Rightarrow> np_inf neg
      | Some y \<Rightarrow> (if y = 0 then np_zero neg else if neg then Fin (- y) else Fin y))"

subsection \<open>Comparison, division, multiplication, maximum\<close>

text \<open>\<^verbatim>\<open>a >= b\<close> on float64: false whenever an operand is NaN; the two zeros are equal.\<close>

fun np_ge :: "npfloat \<Rightarrow> npfloat \<Rightarrow> bool" where
  "np_ge NaN b = False"
| "np_ge a NaN = False"
| "np_ge PInf b = True"
| "np_ge a NInf = True"
| "np_ge NInf b = False"
| "np_ge a PInf = False"
| "np_ge a b = (finite_value b \<le> finite_value a)"

text \<open>
  \<^verbatim>\<open>a / b\<close> (\<^verbatim>\<open>np.divide\<close>, true division) on float64. Division by a zero does not
  raise: numpy warns and the result is an infinity, or NaN for 0/0. The sign of the
  result is the exclusive or of the operands' signs.
\<close>

definition np_divide :: "npfloat \<Rightarrow> npfloat \<Rightarrow> npfloat" where
  "np_divide a b =
     (let neg = (sign_bit a \<noteq> sign_bit b)
      in if a = NaN \<or> b = NaN then NaN
         else if is_inf a then (if is_inf b then NaN else np_inf neg)
         else if is_inf b then np_zero neg
         else if finite_value b = 0 then (if finite_value a = 0 then NaN else np_inf neg)
         else round64 neg (\<bar>finite_value a\<bar> / \<bar>finite_value b\<bar>))"

text \<open>\<^verbatim>\<open>a * b\<close> on float64; a zero times an infinity is NaN.\<close>

definition np_multiply :: "npfloat \<Rightarrow> npfloat \<Rightarrow> npfloat" where
  "np_multiply a b =
     (let neg = (sign_bit a \<noteq> sign_bit b)
      in if a = NaN \<or> b = NaN then NaN
         else if is_inf a \<and> is_inf b then np_inf neg
         else if is_inf a then (if finite_value b = 0 then NaN else np_inf neg)
         else if is_inf b then (if finite_value a = 0 then NaN else np_inf neg)
         else round64 neg (\<bar>finite_value a\<bar> * \<bar>finite_value b\<bar>))"

text \<open>
  \<^verbatim>\<open>np.maximum\<close>: NaN if either operand is NaN, else the first operand when it is
  \<^verbatim>\<open>>=\<close> the second, else the second.
\<close>

definition np_maximum :: "npfloat \<Rightarrow> npfloat \<Rightarrow> npfloat" where
  "np_maximum a b = (if a = NaN \<or> b = NaN then NaN else if np_ge a b then a else b)"

text \<open>
  \<^verbatim>\<open>np.max\<close> of a one-dimensional array: the reduction of the array by
  \<^verbatim>\<open>np.maximum\<close>, from the first entry on. An empty array has no maximum and numpy
  raises ValueError.
\<close>

fun np_max :: "npfloat list \<Rightarrow> py_error + npfloat" where
  "np_max [] = Inl ValueError"
| "np_max (x # xs) = Inr (foldl np_maximum x xs)"

text \<open>
  \<^verbatim>\<open>np.where(b)[0]\<close>: the positions of the true entries of a boolean array,
  collected by one scan from the first position to the last.
\<close>

fun nonzero_from :: "nat \<Rightarrow> bool list \<Rightarrow> nat list" where
  "nonzero_from k [] = []"
| "nonzero_from k (b # bs) = (if b then k # nonzero_from (Suc k) bs else nonzero_from (Suc k) bs)"

definition np_where :: "bool list \<Rightarrow> nat list" where
  "np_where bs = nonzero_from 0 bs"

section \<open>The random source\<close>

text \<open>
  The notebook draws from numpy's global generator. Its state is modelled as the
  sequence of values in [0,1) that it will produce next. The call
  \<^verbatim>\<open>np.random.uniform(low=0,high=1,size=N)\<close> takes the next N of them (it returns
  \<^verbatim>\<open>low + (high-low)*u\<close>, which for these bounds is \<open>u\<close> itself) and leaves the generator
  N values further on.
\<close>

type_synonym rng = "nat \<Rightarrow> rat"

definition rng_skip :: "nat \<Rightarrow> rng \<Rightarrow> rng" where
  "rng_skip N g k = g (N + k)"

definition np_random_uniform :: "nat \<Rightarrow> rng \<Rightarrow> npfloat list \<times> rng" where
  "np_random_uniform N g = (map (\<lambda>k. Fin (g k)) [0..<N], rng_skip N g)"

text \<open>A generator that produces the listed values first, and 0 after them.\<close>

definition draws_of :: "rat list \<Rightarrow> rng" where
  "draws_of us k = (if k < length us then us ! k else 0)"

section \<open>Rejection sampling (cell 5)\<close>

text \<open>
  \<^verbatim>\<open>
  def rejection_sampling(r):
      N = r.size
      check = np.random.uniform(low=0,high=1,size=N)
      M = np.max(r)
      new_r = r/M
      idx = np.where(new_r>=check)[0]
      return idx
  \<close>
  The function takes the generator and returns it with the accepted indices.
\<close>

definition rejection_sampling :: "npfloat list \<Rightarrow> rng \<Rightarrow> py_error + (nat list \<times> rng)" where
  "rejection_sampling r g =
     (let N = length r;
          (check, g') = np_random_uniform N g
      in case np_max r of
           Inl e \<Rightarrow> Inl e
         | Inr M \<Rightarrow>
             (let new_r = map (\<lambda>x. np_divide x M) r;
                  idx = np_where (map2 np_ge new_r check)
              in Inr (idx, g')))"

text \<open>The array \<^verbatim>\<open>check\<close> that a call on \<open>r\<close> draws: \<open>check_draws r g ! i\<close> is the draw \<open>u\<^sub>i\<close>.\<close>

definition check_draws :: "npfloat list \<Rightarrow> rng \<Rightarrow> npfloat list" where
  "check_draws r g = fst (np_random_uniform (length r) g)"

text \<open>The accepted indices alone, as the Python function returns them.\<close>

definition accepted :: "npfloat list \<Rightarrow> rng \<Rightarrow> py_error + nat list" where
  "accepted r g = map_sum id fst (rejection_sampling r g)"

section \<open>Constructing the posterior (cells 3, 4 and 6)\<close>

text \<open>
  A two-dimensional array is its shape and its rows. Indexing a one-dimensional array
  with an index array gathers the entries, and \<^verbatim>\<open>a[:, idx]\<close> gathers columns;
  an index outside the axis raises IndexError.
\<close>

record ndarray2 =
  shape0 :: nat
  shape1 :: nat
  rows :: "npfloat list list"

definition wf_ndarray2 :: "ndarray2 \<Rightarrow> bool" where
  "wf_ndarray2 a = (length (rows a) = shape0 a \<and> list_all (\<lambda>row. length row = shape1 a) (rows a))"

definition column :: "ndarray2 \<Rightarrow> nat \<Rightarrow> npfloat list" where
  "column a j = map (\<lambda>row. row ! j) (rows a)"

definition take_entries :: "npfloat list \<Rightarrow> nat list \<Rightarrow> py_error + npfloat list" where
  "take_entries xs idx =
     (if list_all (\<lambda>j. j < length xs) idx then Inr (map (\<lambda>j. xs ! j) idx) else Inl IndexError)"

definition take_columns :: "ndarray2 \<Rightarrow> nat list \<Rightarrow> py_error + ndarray2" where
  "take_columns a idx =
     (if list_all (\<lambda>j. j < shape1 a) idx
      then Inr \<lparr>shape0 = shape0 a, shape1 = length idx,
                rows = map (\<lambda>row. map (\<lambda>j. row ! j) idx) (rows a)\<rparr>
      else Inl IndexError)"

text \<open>
  \<^verbatim>\<open>a / b\<close> on Python integers: true division, the quotient rounded to a float;
  ZeroDivisionError when b is 0.
\<close>

definition py_truediv :: "nat \<Rightarrow> nat \<Rightarrow> py_error + npfloat" where
  "py_truediv a b =
     (if b = 0 then Inl ZeroDivisionError else Inr (round64 False (of_nat a / of_nat b)))"

text \<open>
  \<^verbatim>\<open>
  obs_vals = norm.pdf(qvals, loc=0.7, scale=1.0e-2)        # cell 3
  q_kde = GKDE( qvals, 'silverman' )                       # cell 4
  r = np.divide(obs_vals,q_kde(qvals))                     # cell 6
  samples_to_keep = rejection_sampling(r)
  post_q = qvals[samples_to_keep]
  post_lam = lam[:,samples_to_keep]
  accept_rate = samples_to_keep.size/lam.shape[0]
  \<close>
  The observed density \<open>norm_pdf\<close> and the kernel density estimator \<open>GKDE\<close> are scipy's
  and are parameters here. \<open>norm_pdf\<close> stands for \<^verbatim>\<open>norm.pdf(., loc=0.7, scale=1.0e-2)\<close>
  at one point. \<open>GKDE qvals\<close> is the fit, which may raise, and gives the fitted density,
  evaluated point by point. The values the cell leaves behind are collected in a record;
  \<open>weights\<close> is the notebook's \<^verbatim>\<open>r\<close>.
\<close>

record posterior_vals =
  weights :: "npfloat list"
  samples_to_keep :: "nat list"
  post_q :: "npfloat list"
  post_lam :: ndarray2
  accept_rate :: npfloat
  generator :: rng

definition importance_weights ::
  "(npfloat \<Rightarrow> npfloat) \<Rightarrow> (npfloat \<Rightarrow> npfloat) \<Rightarrow> npfloat list \<Rightarrow> npfloat list" where
  "importance_weights norm_pdf q_kde qvals =
     (let obs_vals = map norm_pdf qvals
      in map2 np_divide obs_vals (map q_kde qvals))"

text \<open>Cell 6 from its second statement on, for the weights \<open>r\<close> of its first.\<close>

definition posterior_from_weights ::
  "npfloat list \<Rightarrow> npfloat list \<Rightarrow> ndarray2 \<Rightarrow> rng \<Rightarrow> py_error + posterior_vals" where
  "posterior_from_weights r qvals lam g =
     (case rejection_sampling r g of
        Inl e \<Rightarrow> Inl e
      | Inr (idx, g') \<Rightarrow>
          (case take_entries qvals idx of
             Inl e \<Rightarrow> Inl e
           | Inr pq \<Rightarrow>
               (case take_columns lam idx of
                  Inl e \<Rightarrow> Inl e
                | Inr pl \<Rightarrow>
                    (case py_truediv (length idx) (shape0 lam) of
                       Inl e \<Rightarrow> Inl e
                     | Inr rate \<Rightarrow>
                         Inr \<lparr>weights = r, samples_to_keep = idx, post_q = pq,
                              post_lam = pl, accept_rate = rate, generator = g'\<rparr>))))"

definition posterior ::
  "(npfloat \<Rightarrow> npfloat) \<Rightarrow> (npfloat list \<Rightarrow> py_error + (npfloat \<Rightarrow> npfloat)) \<Rightarrow>
     npfloat list \<Rightarrow> ndarray2 \<Rightarrow> rng \<Rightarrow> py_error + posterior_vals" where
  "posterior norm_pdf GKDE qvals lam g =
     (case GKDE qvals of
        Inl e \<Rightarrow> Inl e
      | Inr q_kde \<Rightarrow> posterior_from_weights (importance_weights norm_pdf q_kde qvals) qvals lam g)"

section \<open>Exact rescaling\<close>

text \<open>
  \<open>scale_exact c a\<close> is the product of a positive \<open>c\<close> and \<open>a\<close> without rounding: what
  \<^verbatim>\<open>c * a\<close> computes when the product is representable, as for a power of two \<open>c\<close>
  that takes \<open>a\<close> neither out of range nor below the normal numbers.
\<close>

fun scale_exact :: "rat \<Rightarrow> npfloat \<Rightarrow> npfloat" where
  "scale_exact c (Fin x) = Fin (c * x)"
| "scale_exact c a = a"

section \<open>Properties of the array operations\<close>

lemma nonzero_from_filter:
  "nonzero_from k bs = filter (\<lambda>i. bs ! (i - k)) [k..<k + length bs]"
proof (induction bs arbitrary: k)
  case Nil
  then show ?case by simp
next
  case (Cons b bs)
  have "filter (\<lambda>i. (b # bs) ! (i - k)) [Suc k..<Suc k + length bs]
      = filter (\<lambda>i. bs ! (i - Suc k)) [Suc k..<Suc k + length bs]"
  proof (rule filter_cong)
    fix i assume "i \<in> set [Suc k..<Suc k + length bs]"
    then have "i - k = Suc (i - Suc k)" by auto
    then show "(b # bs) ! (i - k) = bs ! (i - Suc k)" by simp
  qed simp
  moreover have "[k..<k + length (b # bs)] = k # [Suc k..<Suc k + length bs]"
    by (simp add: upt_conv_Cons del: upt_Suc)
  ultimately show ?case
    using Cons.IH [of "Suc k"] by (auto simp del: upt_Suc)
qed

lemma np_where_filter: "np_where bs = filter (\<lambda>i. bs ! i) [0..<length bs]"
  by (simp add: np_where_def nonzero_from_filter)

lemma np_ge_Fin_iff:
  "np_ge (Fin M) x \<longleftrightarrow> x = NInf \<or> (x = NZero \<and> 0 \<le> M) \<or> (\<exists>y. x = Fin y \<and> y \<le> M)"
  by (cases x) simp_all

lemma np_ge_maximum: "np_ge (Fin M) (np_maximum a b) \<Longrightarrow> np_ge (Fin M) a \<and> np_ge (Fin M) b"
  by (cases a; cases b) (simp_all add: np_maximum_def split: if_splits)

lemma np_maximum_cases: "np_maximum a b = a \<or> np_maximum a b = b \<or> np_maximum a b = NaN"
  by (simp add: np_maximum_def)

lemma foldl_np_maximum_Fin:
  "foldl np_maximum a xs = Fin M \<Longrightarrow> (\<forall>x\<in>set (a # xs). np_ge (Fin M) x) \<and> Fin M \<in> set (a # xs)"
proof (induction xs arbitrary: a)
  case Nil
  then show ?case by simp
next
  case (Cons x xs)
  from Cons.prems have f: "foldl np_maximum (np_maximum a x) xs = Fin M" by simp
  from Cons.IH [OF f] have all: "\<forall>y\<in>set (np_maximum a x # xs). np_ge (Fin M) y"
    and mem: "Fin M \<in> set (np_maximum a x # xs)" by blast+
  from all have m: "np_ge (Fin M) (np_maximum a x)" by simp
  then have ax: "np_ge (Fin M) a" "np_ge (Fin M) x" using np_ge_maximum by blast+
  from m have "np_maximum a x \<noteq> NaN" by auto
  then have "np_maximum a x = a \<or> np_maximum a x = x" using np_maximum_cases [of a x] by blast
  with mem have "Fin M \<in> set (a # x # xs)" by auto
  with all ax show ?case by simp
qed

lemma np_maximum_absorb:
  "M \<noteq> 0 \<Longrightarrow> np_ge (Fin M) a \<Longrightarrow> np_ge (Fin M) b \<Longrightarrow> a = Fin M \<or> b = Fin M \<Longrightarrow>
     np_maximum a b = Fin M"
  by (cases a; cases b) (auto simp: np_maximum_def)

lemma np_ge_into_maximum:
  "np_ge (Fin M) a \<Longrightarrow> np_ge (Fin M) b \<Longrightarrow> np_ge (Fin M) (np_maximum a b)"
  by (cases a; cases b) (simp_all add: np_maximum_def)

lemma foldl_np_maximum_Fin_conv:
  "M \<noteq> 0 \<Longrightarrow> (\<forall>x\<in>set (a # xs). np_ge (Fin M) x) \<Longrightarrow> Fin M \<in> set (a # xs) \<Longrightarrow>
     foldl np_maximum a xs = Fin M"
proof (induction xs arbitrary: a)
  case Nil
  then show ?case by simp
next
  case (Cons x xs)
  have ax: "np_ge (Fin M) a" "np_ge (Fin M) x" using Cons.prems(2) by simp_all
  have 1: "\<forall>y\<in>set (np_maximum a x # xs). np_ge (Fin M) y"
    using Cons.prems(2) np_ge_into_maximum [OF ax] by simp
  have 2: "Fin M \<in> set (np_maximum a x # xs)"
  proof (cases "a = Fin M \<or> x = Fin M")
    case True
    then show ?thesis using np_maximum_absorb [OF Cons.prems(1) ax] by simp
  next
    case False
    then show ?thesis using Cons.prems(3) by auto
  qed
  show ?case using Cons.IH [OF Cons.prems(1) 1 2] by simp
qed

lemma np_max_FinD:
  assumes "np_max r = Inr (Fin M)"
  shows "r \<noteq> []" and "\<forall>x\<in>set r. np_ge (Fin M) x" and "Fin M \<in> set r"
proof -
  from assms obtain a xs where r: "r = a # xs" by (cases r) simp_all
  with assms have "foldl np_maximum a xs = Fin M" by simp
  from foldl_np_maximum_Fin [OF this]
  show "r \<noteq> []" and "\<forall>x\<in>set r. np_ge (Fin M) x" and "Fin M \<in> set r"
    unfolding r by blast+
qed

lemma np_max_FinI:
  assumes "M \<noteq> 0" and "\<forall>x\<in>set r. np_ge (Fin M) x" and "Fin M \<in> set r"
  shows "np_max r = Inr (Fin M)"
proof -
  from assms(3) obtain a xs where r: "r = a # xs" by (cases r) simp_all
  from assms(2,3) have "\<forall>x\<in>set (a # xs). np_ge (Fin M) x" and "Fin M \<in> set (a # xs)"
    unfolding r by blast+
  with assms(1) have "foldl np_maximum a xs = Fin M" by (rule foldl_np_maximum_Fin_conv)
  then show ?thesis by (simp add: r)
qed

lemma np_max_nonempty: "r \<noteq> [] \<Longrightarrow> \<exists>M. np_max r = Inr M"
  by (cases r) simp_all

lemma rejection_sampling_Inr:
  assumes "np_max r = Inr M"
  shows "rejection_sampling r g =
    Inr (filter (\<lambda>i. np_ge (np_divide (r ! i) M) (Fin (g i))) [0..<length r], rng_skip (length r) g)"
proof -
  have "filter (\<lambda>i. map2 np_ge (map (\<lambda>x. np_divide x M) r) (map (\<lambda>k. Fin (g k)) [0..<length r]) ! i) [0..<length r]
      = filter (\<lambda>i. np_ge (np_divide (r ! i) M) (Fin (g i))) [0..<length r]"
    by (rule filter_cong) auto
  then show ?thesis
    using assms by (simp add: rejection_sampling_def np_random_uniform_def np_where_filter Let_def)
qed

lemma check_draws_nth: "i < length r \<Longrightarrow> check_draws r g ! i = Fin (g i)"
  by (simp add: check_draws_def np_random_uniform_def)

lemma rejection_sampling_check:
  assumes "np_max r = Inr M"
  shows "rejection_sampling r g =
    Inr (filter (\<lambda>i. np_ge (np_divide (r ! i) M) (check_draws r g ! i)) [0..<length r],
         rng_skip (length r) g)"
proof -
  have "filter (\<lambda>i. np_ge (np_divide (r ! i) M) (check_draws r g ! i)) [0..<length r]
      = filter (\<lambda>i. np_ge (np_divide (r ! i) M) (Fin (g i))) [0..<length r]"
    by (rule filter_cong) (simp_all add: check_draws_nth)
  then show ?thesis by (simp add: rejection_sampling_Inr [OF assms])
qed

lemma round64_one: "round64 False 1 = Fin 1"
  by code_simp

lemma round64_zero: "round64 neg 0 = np_zero neg"
  by (simp add: round64_def round_magnitude_def)

lemma np_divide_self: "M \<noteq> 0 \<Longrightarrow> np_divide (Fin M) (Fin M) = Fin 1"
  by (simp add: np_divide_def round64_one)

section \<open>The rejection sampler\<close>

lemma accepted_Inr:
  "rejection_sampling r g = Inr (idx, g') \<Longrightarrow> accepted r g = Inr idx"
  by (simp add: accepted_def)

text \<open>
  Claim C3. When the weights have a finite positive maximum \<open>M\<close>, the call returns, and
  the accepted indices are exactly the indices \<open>i\<close> with \<open>r[i] / M >= u\<^sub>i\<close>, listed in the
  order of the input: the positions \<open>0, ..., N-1\<close> filtered by the criterion, where the
  quotient is the rounded float64 quotient the code compares. This holds for every
  generator, in particular for draws in [0,1).
\<close>

theorem rejection_sampling_accepts:
  assumes "np_max r = Inr (Fin M)" and "0 < M"
  shows "rejection_sampling r g =
    Inr ([i \<leftarrow> [0..<length r]. np_ge (np_divide (r ! i) (Fin M)) (check_draws r g ! i)],
         rng_skip (length r) g)"
  using assms(1) by (rule rejection_sampling_check)

theorem rejection_sampling_accepts_witness:
  "np_max [Fin 4, Fin 5, Fin 1] = Inr (Fin 5) \<and> (0::rat) < 5 \<and>
   accepted [Fin 4, Fin 5, Fin 1] (draws_of [3602879701896397 / 4503599627370496, 1/2, 1/2]) = Inr [0, 1]"
proof -
  let ?r = "[Fin 4, Fin 5, Fin 1]" and ?g = "draws_of [3602879701896397 / 4503599627370496, 1/2, 1/2]"
  have m: "np_max ?r = Inr (Fin 5)" by code_simp
  have p: "(0::rat) < 5" by simp
  have e: "[i \<leftarrow> [0..<length ?r]. np_ge (np_divide (?r ! i) (Fin 5)) (check_draws ?r ?g ! i)] = [0, 1]"
    by code_simp
  from rejection_sampling_accepts [OF m p, of ?g]
  have "accepted ?r ?g = Inr [0, 1]" unfolding e by (rule accepted_Inr)
  with m p show ?thesis by blast
qed

text \<open>
  Claim C6. For weights of length \<open>N\<close> with at least one strictly positive entry, the
  call returns, and its index sequence lies in \<open>{0, ..., N-1}\<close>, is strictly increasing
  and has no duplicates.
\<close>

theorem accepted_indices_increasing:
  assumes "\<exists>i<length r. \<exists>w>0. r ! i = Fin w"
  shows "\<exists>idx g'. rejection_sampling r g = Inr (idx, g') \<and>
           set idx \<subseteq> {0..<length r} \<and> sorted_wrt (<) idx \<and> distinct idx"
proof -
  from assms have "r \<noteq> []" by auto
  then obtain M where "np_max r = Inr M" using np_max_nonempty by blast
  from rejection_sampling_Inr [OF this, of g] show ?thesis
    by (auto intro!: sorted_wrt_filter)
qed

theorem accepted_indices_increasing_witness:
  "(\<exists>i<length [Fin 1, Fin 4, Fin 2]. \<exists>w>0. [Fin 1, Fin 4, Fin 2] ! i = Fin w) \<and>
   (\<exists>idx g'. rejection_sampling [Fin 1, Fin 4, Fin 2] (draws_of [1/2, 3/4, 1/4]) = Inr (idx, g') \<and>
      set idx \<subseteq> {0..<length [Fin 1, Fin 4, Fin (2::rat)]} \<and> sorted_wrt (<) idx \<and> distinct idx)"
proof -
  have h: "\<exists>i<length [Fin 1, Fin 4, Fin 2]. \<exists>w>0. [Fin 1, Fin 4, Fin 2] ! i = Fin w"
    by (intro exI [of _ 0]) simp
  from accepted_indices_increasing [OF h, of "draws_of [1/2, 3/4, 1/4]"] h
  show ?thesis by blast
qed

text \<open>
  Claim C10. When the weights have a finite positive maximum \<open>M\<close> and the draws lie in
  [0,1), every index whose weight is \<open>M\<close> is accepted (its normalised weight is 1), and so
  the accepted index sequence is not empty.
\<close>

theorem maximum_always_accepted:
  assumes "np_max r = Inr (Fin M)" and "0 < M" and "\<forall>i<length r. 0 \<le> g i \<and> g i < 1"
  shows "\<exists>idx g'. rejection_sampling r g = Inr (idx, g') \<and>
           (\<forall>i<length r. r ! i = Fin M \<longrightarrow> i \<in> set idx) \<and> idx \<noteq> []"
proof -
  let ?idx = "filter (\<lambda>i. np_ge (np_divide (r ! i) (Fin M)) (Fin (g i))) [0..<length r]"
  have acc: "i \<in> set ?idx" if "i < length r" "r ! i = Fin M" for i
  proof -
    have "g i \<le> 1" using that(1) assms(3) by (simp add: less_imp_le)
    moreover have "np_divide (r ! i) (Fin M) = Fin 1"
      using that(2) assms(2) by (simp add: np_divide_self)
    ultimately show ?thesis using that(1) by simp
  qed
  from np_max_FinD(3) [OF assms(1)] obtain i where "i < length r" "r ! i = Fin M"
    by (auto simp: in_set_conv_nth)
  then have "i \<in> set ?idx" by (rule acc)
  then have "?idx \<noteq> []" by (metis length_pos_if_in_set less_nat_zero_code list.size(3))
  with acc rejection_sampling_Inr [OF assms(1), of g] show ?thesis by blast
qed

theorem maximum_always_accepted_witness:
  "np_max [Fin 3, Fin 1, Fin 3] = Inr (Fin 3) \<and> (0::rat) < 3 \<and>
   (\<exists>idx g'. rejection_sampling [Fin 3, Fin 1, Fin 3] (draws_of [7/8, 1/2, 0]) = Inr (idx, g') \<and>
      0 \<in> set idx \<and> 2 \<in> set idx \<and> idx \<noteq> [])"
proof -
  have m: "np_max [Fin 3, Fin 1, Fin 3] = Inr (Fin 3)" by code_simp
  have u: "\<forall>i<length [Fin 3, Fin 1, Fin 3]. 0 \<le> draws_of [7/8, 1/2, 0] i \<and> draws_of [7/8, 1/2, 0] i < 1"
    by (simp add: draws_of_def less_Suc_eq nth_Cons split: nat.splits)
  have p: "(0::rat) < 3" by simp
  from maximum_always_accepted [OF m p u] obtain idx g' where
    "rejection_sampling [Fin 3, Fin 1, Fin 3] (draws_of [7/8, 1/2, 0]) = Inr (idx, g')"
    "\<forall>i<length [Fin 3, Fin 1, Fin 3]. [Fin 3, Fin 1, Fin 3] ! i = Fin 3 \<longrightarrow> i \<in> set idx" "idx \<noteq> []"
    by blast
  moreover from this(2) have "0 \<in> set idx" "2 \<in> set idx" by force+
  ultimately show ?thesis using m by auto
qed

lemma zeros_maximum:
  "a = Fin 0 \<or> a = NZero \<Longrightarrow> b = Fin 0 \<or> b = NZero \<Longrightarrow>
     np_maximum a b = Fin 0 \<or> np_maximum a b = NZero"
  by (auto simp: np_maximum_def)

lemma foldl_np_maximum_zeros:
  "a = Fin 0 \<or> a = NZero \<Longrightarrow> \<forall>x\<in>set xs. x = Fin 0 \<or> x = NZero \<Longrightarrow>
     foldl np_maximum a xs = Fin 0 \<or> foldl np_maximum a xs = NZero"
proof (induction xs arbitrary: a)
  case Nil
  then show ?case by simp
next
  case (Cons x xs)
  from Cons.prems have "np_maximum a x = Fin 0 \<or> np_maximum a x = NZero"
    by (intro zeros_maximum) simp_all
  moreover from Cons.prems(2) have "\<forall>y\<in>set xs. y = Fin 0 \<or> y = NZero" by simp
  ultimately show ?case using Cons.IH by simp
qed

lemma np_divide_zero_zero:
  "a = Fin 0 \<or> a = NZero \<Longrightarrow> b = Fin 0 \<or> b = NZero \<Longrightarrow> np_divide a b = NaN"
  by (auto simp: np_divide_def)

lemma np_divide_zero_pos:
  "a = Fin 0 \<or> a = NZero \<Longrightarrow> 0 < w \<Longrightarrow>
     np_divide a (Fin w) = Fin 0 \<or> np_divide a (Fin w) = NZero"
  by (auto simp: np_divide_def round64_zero)

text \<open>
  Claim C4 says that all-zero weights make the sampler fail with an error. They do not:
  the maximum is 0, every normalised weight is 0/0, NaN, no comparison with NaN holds,
  and the call returns the empty index array. Here for two zero weights, even with
  both draws 0.
\<close>

theorem all_zero_returns_empty_example:
  "accepted [Fin 0, Fin 0] (draws_of [0, 0]) = Inr []"
  by code_simp

text \<open>
  Claim C4, amended. For every non-empty weight sequence whose entries are all zero,
  the call raises nothing and returns the empty index sequence, whatever the draws.
\<close>

theorem all_zero_weights_accept_nothing:
  assumes "r \<noteq> []" and "\<forall>x\<in>set r. x = Fin 0 \<or> x = NZero"
  shows "rejection_sampling r g = Inr ([], rng_skip (length r) g)"
proof -
  from assms(1) obtain a xs where r: "r = a # xs" by (cases r) simp_all
  with assms(2) have "a = Fin 0 \<or> a = NZero" and "\<forall>x\<in>set xs. x = Fin 0 \<or> x = NZero"
    by simp_all
  then have "foldl np_maximum a xs = Fin 0 \<or> foldl np_maximum a xs = NZero"
    by (rule foldl_np_maximum_zeros)
  then obtain M where m: "np_max r = Inr M" and z: "M = Fin 0 \<or> M = NZero"
    by (simp add: r)
  have "\<not> np_ge (np_divide (r ! i) M) (Fin (g i))" if "i < length r" for i
  proof -
    from that assms(2) have "r ! i = Fin 0 \<or> r ! i = NZero" by simp
    from np_divide_zero_zero [OF this z] show ?thesis by simp
  qed
  then have "filter (\<lambda>i. np_ge (np_divide (r ! i) M) (Fin (g i))) [0..<length r] = []"
    by (simp add: filter_empty_conv)
  then show ?thesis by (simp only: rejection_sampling_Inr [OF m, of g])
qed

theorem all_zero_weights_accept_nothing_witness:
  "[Fin 0, NZero, Fin 0] \<noteq> [] \<and> accepted [Fin 0, NZero, Fin 0] (draws_of [1/4, 0, 3/4]) = Inr []"
proof -
  have n: "[Fin 0, NZero, Fin 0] \<noteq> []" by simp
  have h: "\<forall>x\<in>set [Fin 0, NZero, Fin 0]. x = Fin 0 \<or> x = NZero" by simp
  from all_zero_weights_accept_nothing [OF n h, of "draws_of [1/4, 0, 3/4]"]
  have "accepted [Fin 0, NZero, Fin 0] (draws_of [1/4, 0, 3/4]) = Inr []" by (rule accepted_Inr)
  with n show ?thesis by blast
qed

text \<open>
  Claim C5 says that with one positive weight only its index can be accepted, for all
  draws in [0,1). A draw of exactly 0 accepts a zero weight, since \<open>0 >= 0\<close>: here
  index 1, of weight 0, is accepted.
\<close>

theorem zero_weight_accepted_example:
  "accepted [Fin 1, Fin 0] (draws_of [1/2, 0]) = Inr [0, 1]"
  by code_simp

text \<open>
  Claim C5, amended. When exactly one weight, at index \<open>p\<close>, is strictly positive and
  the others are zero, and the draws lie in [0,1) and are not 0 at the other indices,
  the call returns and no index but \<open>p\<close> is accepted.
\<close>

theorem single_positive_weight:
  assumes "p < length r" and "r ! p = Fin w" and "0 < w"
    and "\<forall>i<length r. i \<noteq> p \<longrightarrow> r ! i = Fin 0 \<or> r ! i = NZero"
    and "\<forall>i<length r. 0 \<le> g i \<and> g i < 1"
    and "\<forall>i<length r. i \<noteq> p \<longrightarrow> g i \<noteq> 0"
  shows "\<exists>idx g'. rejection_sampling r g = Inr (idx, g') \<and> set idx \<subseteq> {p}"
proof -
  have "np_ge (Fin w) x" if "x \<in> set r" for x
  proof -
    from that obtain i where i: "i < length r" "x = r ! i" by (auto simp: in_set_conv_nth)
    show ?thesis
    proof (cases "i = p")
      case True
      with i assms(2) show ?thesis by simp
    next
      case False
      with i assms(4) have "x = Fin 0 \<or> x = NZero" by simp
      with assms(3) show ?thesis by auto
    qed
  qed
  then have all: "\<forall>x\<in>set r. np_ge (Fin w) x" by blast
  have mem: "Fin w \<in> set r" using assms(1,2) by (metis nth_mem)
  from assms(3) have "w \<noteq> 0" by simp
  from np_max_FinI [OF this all mem] have m: "np_max r = Inr (Fin w)" .
  have "i = p" if "i < length r" "np_ge (np_divide (r ! i) (Fin w)) (Fin (g i))" for i
  proof (rule ccontr)
    assume "i \<noteq> p"
    with that(1) assms(4,5,6) have z: "r ! i = Fin 0 \<or> r ! i = NZero" and "0 < g i"
      by (simp_all add: less_le)
    from np_divide_zero_pos [OF z assms(3)] that(2) \<open>0 < g i\<close> show False by auto
  qed
  then have "set (filter (\<lambda>i. np_ge (np_divide (r ! i) (Fin w)) (Fin (g i))) [0..<length r]) \<subseteq> {p}"
    by auto
  with rejection_sampling_Inr [OF m, of g] show ?thesis by blast
qed

theorem single_positive_weight_witness:
  "(1::nat) < length [Fin 0, Fin 5, NZero] \<and> [Fin 0, Fin 5, NZero] ! 1 = Fin 5 \<and> (0::rat) < 5 \<and>
   (\<exists>idx g'. rejection_sampling [Fin 0, Fin 5, NZero] (draws_of [1/4, 0, 3/4]) = Inr (idx, g') \<and>
      set idx \<subseteq> {1})"
proof -
  let ?r = "[Fin 0, Fin 5, NZero]" and ?g = "draws_of [1/4, 0, 3/4]"
  have 1: "(1::nat) < length ?r" and 2: "?r ! 1 = Fin 5" and 3: "(0::rat) < 5" by simp_all
  have 4: "\<forall>i<length ?r. i \<noteq> 1 \<longrightarrow> ?r ! i = Fin 0 \<or> ?r ! i = NZero"
    by (simp add: less_Suc_eq nth_Cons split: nat.splits)
  have 5: "\<forall>i<length ?r. 0 \<le> ?g i \<and> ?g i < 1"
    by (simp add: draws_of_def less_Suc_eq nth_Cons split: nat.splits)
  have 6: "\<forall>i<length ?r. i \<noteq> 1 \<longrightarrow> ?g i \<noteq> 0"
    by (simp add: draws_of_def less_Suc_eq nth_Cons split: nat.splits)
  from single_positive_weight [OF 1 2 3 4 5 6] 1 2 3 show ?thesis by blast
qed

text \<open>
  Claim C9 says that scaling the weights by any positive \<open>c\<close> leaves the accepted set
  unchanged. The products \<open>c * r[i]\<close> and the quotients are rounded, and the rounded
  quotients can differ: for \<open>r = [0.5, 6.4]\<close> and the draw \<open>u\<^sub>0 = 0.078125\<close>, index 0
  is accepted (\<open>0.5 / 6.4\<close> rounds to \<open>0.078125\<close>), but for \<open>1.5 * r\<close> it is not
  (\<open>0.75 / 9.600000000000001\<close> rounds to \<open>0.07812499999999999\<close>).
\<close>

theorem rescaling_changes_indices_example:
  "np_max [Fin (1/2), Fin (3602879701896397 / 562949953421312)]
     = Inr (Fin (3602879701896397 / 562949953421312)) \<and>
   accepted [Fin (1/2), Fin (3602879701896397 / 562949953421312)] (draws_of [5/64, 1/2])
     = Inr [0, 1] \<and>
   accepted (map (np_multiply (Fin (3/2))) [Fin (1/2), Fin (3602879701896397 / 562949953421312)])
     (draws_of [5/64, 1/2]) = Inr [1]"
  by code_simp

lemma np_ge_scale_exact:
  "0 < c \<Longrightarrow> np_ge (Fin M) x \<Longrightarrow> np_ge (Fin (c * M)) (scale_exact c x)"
  by (cases x) (simp_all add: zero_le_mult_iff)

lemma np_divide_scale_exact:
  assumes "0 < c" and "0 < M" and "np_ge (Fin M) x"
  shows "np_divide (scale_exact c x) (Fin (c * M)) = np_divide x (Fin M)"
proof (cases x)
  case (Fin y)
  have "\<bar>c * y\<bar> / \<bar>c * M\<bar> = \<bar>y\<bar> / \<bar>M\<bar>" using assms(1) by (simp add: abs_mult)
  moreover have "(c * y < 0) = (y < 0)" using assms(1) by (simp add: mult_less_0_iff)
  moreover have "\<not> c * M < 0" "\<not> M < 0" "c * M \<noteq> 0" "M \<noteq> 0"
    using assms(1,2) by (simp_all add: mult_less_0_iff less_imp_le)
  ultimately show ?thesis by (simp add: Fin np_divide_def)
next
  case NZero
  then show ?thesis using assms(1,2) by (simp add: np_divide_def mult_less_0_iff)
next
  case PInf
  then show ?thesis using assms(3) by simp
next
  case NInf
  then show ?thesis using assms(1,2) by (simp add: np_divide_def mult_less_0_iff)
next
  case NaN
  then show ?thesis using assms(3) by simp
qed

text \<open>
  Claim C9, amended. When the weights have a finite positive maximum and every product
  \<open>c * r[i]\<close> by the positive scalar \<open>c\<close> is exact (no rounding, overflow or underflow, as
  for a power of two within range), the call on \<open>c * r\<close> returns what the call on \<open>r\<close>
  returns, for every generator.
\<close>

theorem rescaling_invariance:
  assumes "np_max r = Inr (Fin M)" and "0 < M" and "0 < c"
    and "map (np_multiply (Fin c)) r = map (scale_exact c) r"
  shows "rejection_sampling (map (np_multiply (Fin c)) r) g = rejection_sampling r g"
proof -
  let ?s = "map (scale_exact c) r"
  note r = np_max_FinD [OF assms(1)]
  have "\<forall>y\<in>set ?s. np_ge (Fin (c * M)) y"
    using r(2) assms(3) by (auto intro: np_ge_scale_exact)
  moreover have "Fin (c * M) \<in> set ?s"
  proof -
    have "scale_exact c (Fin M) \<in> scale_exact c ` set r" using r(3) by (rule imageI)
    then show ?thesis by simp
  qed
  moreover have "c * M \<noteq> 0" using assms(2,3) by simp
  ultimately have s: "np_max ?s = Inr (Fin (c * M))" by (intro np_max_FinI)
  have "filter (\<lambda>i. np_ge (np_divide (?s ! i) (Fin (c * M))) (Fin (g i))) [0..<length r]
      = filter (\<lambda>i. np_ge (np_divide (r ! i) (Fin M)) (Fin (g i))) [0..<length r]"
  proof (rule filter_cong)
    fix i assume "i \<in> set [0..<length r]"
    then have i: "i < length r" by simp
    then have "np_ge (Fin M) (r ! i)" using r(2) by simp
    from np_divide_scale_exact [OF assms(3,2) this] i
    show "np_ge (np_divide (?s ! i) (Fin (c * M))) (Fin (g i))
        = np_ge (np_divide (r ! i) (Fin M)) (Fin (g i))"
      by simp
  qed simp
  then have "rejection_sampling ?s g = rejection_sampling r g"
    using rejection_sampling_Inr [OF s, of g] rejection_sampling_Inr [OF assms(1), of g] by simp
  then show ?thesis by (simp only: assms(4))
qed

theorem rescaling_invariance_witness:
  "np_max [Fin 1, Fin 4, Fin 3] = Inr (Fin 4) \<and> (0::rat) < 4 \<and> (0::rat) < 2 \<and>
   map (np_multiply (Fin 2)) [Fin 1, Fin 4, Fin 3] = map (scale_exact 2) [Fin 1, Fin 4, Fin 3] \<and>
   rejection_sampling (map (np_multiply (Fin 2)) [Fin 1, Fin 4, Fin 3]) (draws_of [1/2, 1/2, 1/2]) =
   rejection_sampling [Fin 1, Fin 4, Fin 3] (draws_of [1/2, 1/2, 1/2])"
proof -
  have m: "np_max [Fin 1, Fin 4, Fin 3] = Inr (Fin 4)" by code_simp
  have p: "(0::rat) < 4" and c: "(0::rat) < 2" by simp_all
  have e: "map (np_multiply (Fin 2)) [Fin 1, Fin 4, Fin 3] = map (scale_exact 2) [Fin 1, Fin 4, Fin 3]"
    by code_simp
  from rescaling_invariance [OF m p c e, of "draws_of [1/2, 1/2, 1/2]"] m p c e
  show ?thesis by blast
qed

section \<open>The posterior\<close>

text \<open>
  Claim C1 says the accept rate is \<open>K / N\<close> for \<open>N\<close> QoI samples and lies strictly between
  0 and 1. The cell divides by \<^verbatim>\<open>lam.shape[0]\<close>. For \<^verbatim>\<open>lam[:,samples_to_keep]\<close> to
  gather the accepted samples, the samples are the columns of \<^verbatim>\<open>lam\<close>, and
  \<^verbatim>\<open>lam.shape[0]\<close> is the parameter dimension. With 4 samples of a 2-dimensional
  parameter and 3 of them accepted, the rate is \<open>3/2\<close>, not \<open>3/4\<close>.
\<close>

theorem accept_rate_divides_by_shape0:
  "map_sum id samples_to_keep
     (posterior_from_weights [Fin (1/2), Fin 1, Fin (3/2), Fin 2]
        [Fin (1/4), Fin (1/2), Fin (3/4), Fin 1]
        \<lparr>shape0 = 2, shape1 = 4,
         rows = [[Fin 1, Fin 2, Fin 3, Fin 4], [Fin 5, Fin 6, Fin 7, Fin 8]]\<rparr>
        (draws_of [1/2, 1/4, 1/2, 1/2])) = Inr [1, 2, 3] \<and>
   map_sum id accept_rate
     (posterior_from_weights [Fin (1/2), Fin 1, Fin (3/2), Fin 2]
        [Fin (1/4), Fin (1/2), Fin (3/4), Fin 1]
        \<lparr>shape0 = 2, shape1 = 4,
         rows = [[Fin 1, Fin 2, Fin 3, Fin 4], [Fin 5, Fin 6, Fin 7, Fin 8]]\<rparr>
        (draws_of [1/2, 1/4, 1/2, 1/2])) = Inr (Fin (3/2))"
proof -
  let ?r = "[Fin (1/2), Fin 1, Fin (3/2), Fin 2]" and ?g = "draws_of [1/2, 1/4, 1/2, 1/2]"
  have m: "np_max ?r = Inr (Fin 2)" by code_simp
  have e: "filter (\<lambda>i. np_ge (np_divide (?r ! i) (Fin 2)) (Fin (?g i))) [0..<length ?r] = [1, 2, 3]"
    by code_simp
  have s: "rejection_sampling ?r ?g = Inr ([1, 2, 3], rng_skip (length ?r) ?g)"
    using rejection_sampling_Inr [OF m, of ?g] unfolding e .
  have q: "py_truediv (length [1, 2, 3 :: nat]) 2 = Inr (Fin (3/2))" by code_simp
  show ?thesis
    by (simp add: posterior_from_weights_def s take_entries_def take_columns_def q [simplified])
qed

lemma importance_weights_length:
  "length (importance_weights norm_pdf q_kde qvals) = length qvals"
  by (simp add: importance_weights_def)

lemma importance_weights_nth:
  "i < length qvals \<Longrightarrow>
     importance_weights norm_pdf q_kde qvals ! i = np_divide (norm_pdf (qvals ! i)) (q_kde (qvals ! i))"
  by (simp add: importance_weights_def)

lemma rejection_sampling_in_range:
  assumes "rejection_sampling r g = Inr (idx, g')"
  shows "list_all (\<lambda>j. j < length r) idx"
proof -
  from assms obtain M where m: "np_max r = Inr M"
    by (cases "np_max r") (simp_all add: rejection_sampling_def Let_def split: prod.splits)
  from rejection_sampling_Inr [OF m, of g] assms
  have "idx = filter (\<lambda>i. np_ge (np_divide (r ! i) M) (Fin (g i))) [0..<length r]" by simp
  then show ?thesis by (simp add: list_all_iff)
qed

lemma posterior_from_weights_Inr:
  assumes "rejection_sampling r g = Inr (idx, g')"
    and "length r = length qvals" and "shape1 lam = length qvals" and "0 < shape0 lam"
  shows "posterior_from_weights r qvals lam g =
    Inr \<lparr>weights = r, samples_to_keep = idx, post_q = map (\<lambda>j. qvals ! j) idx,
         post_lam = \<lparr>shape0 = shape0 lam, shape1 = length idx,
                     rows = map (\<lambda>row. map (\<lambda>j. row ! j) idx) (rows lam)\<rparr>,
         accept_rate = round64 False (of_nat (length idx) / of_nat (shape0 lam)),
         generator = g'\<rparr>"
proof -
  from rejection_sampling_in_range [OF assms(1)] assms(2,3)
  have 1: "list_all (\<lambda>j. j < length qvals) idx" and 2: "list_all (\<lambda>j. j < shape1 lam) idx"
    by simp_all
  show ?thesis
    using assms(4) by (simp add: posterior_from_weights_def assms(1) take_entries_def
        take_columns_def py_truediv_def 1 2)
qed

text \<open>
  Claim C2. On \<open>N \<ge> 1\<close> QoI samples, a fitted density and a parameter array with one
  column per sample (and at least one row), the cell returns; the weight at every
  index \<open>i\<close> is \<open>norm_pdf(q[i]) / q_kde(q[i])\<close> for the density \<open>q_kde\<close> fitted on \<open>q\<close>; the
  accepted indices are those the sampler returns for these weights; and both outputs
  gather exactly them: \<open>post_q[j] = q[idx[j]]\<close>, and column \<open>j\<close> of \<open>post_lam\<close> is column
  \<open>idx[j]\<close> of \<open>lam\<close>.
\<close>

theorem posterior_gathers_accepted:
  assumes "GKDE qvals = Inr q_kde" and "qvals \<noteq> []"
    and "wf_ndarray2 lam" and "shape1 lam = length qvals" and "0 < shape0 lam"
  shows "\<exists>v. posterior norm_pdf GKDE qvals lam g = Inr v \<and>
      length (weights v) = length qvals \<and>
      (\<forall>i<length qvals.
          weights v ! i = np_divide (norm_pdf (qvals ! i)) (q_kde (qvals ! i))) \<and>
      rejection_sampling (weights v) g = Inr (samples_to_keep v, generator v) \<and>
      (\<forall>j\<in>set (samples_to_keep v). j < length qvals) \<and>
      length (post_q v) = length (samples_to_keep v) \<and>
      (\<forall>j<length (samples_to_keep v). post_q v ! j = qvals ! (samples_to_keep v ! j)) \<and>
      wf_ndarray2 (post_lam v) \<and>
      shape0 (post_lam v) = shape0 lam \<and>
      shape1 (post_lam v) = length (samples_to_keep v) \<and>
      (\<forall>j<length (samples_to_keep v). column (post_lam v) j = column lam (samples_to_keep v ! j))"
proof -
  let ?r = "importance_weights norm_pdf q_kde qvals"
  have len: "length ?r = length qvals" by (rule importance_weights_length)
  with assms(2) have "?r \<noteq> []" by auto
  then obtain M where m: "np_max ?r = Inr M" using np_max_nonempty by blast
  define idx where "idx = filter (\<lambda>i. np_ge (np_divide (?r ! i) M) (Fin (g i))) [0..<length ?r]"
  have rs: "rejection_sampling ?r g = Inr (idx, rng_skip (length ?r) g)"
    unfolding idx_def by (rule rejection_sampling_Inr [OF m])
  define v where "v = \<lparr>weights = ?r, samples_to_keep = idx, post_q = map (\<lambda>j. qvals ! j) idx,
         post_lam = \<lparr>shape0 = shape0 lam, shape1 = length idx,
                     rows = map (\<lambda>row. map (\<lambda>j. row ! j) idx) (rows lam)\<rparr>,
         accept_rate = round64 False (of_nat (length idx) / of_nat (shape0 lam)),
         generator = rng_skip (length ?r) g\<rparr>"
  have p: "posterior norm_pdf GKDE qvals lam g = Inr v"
    unfolding v_def posterior_def
    using posterior_from_weights_Inr [OF rs len assms(4,5)] by (simp add: assms(1))
  have 1: "length (weights v) = length qvals" by (simp add: v_def len)
  have 2: "\<forall>i<length qvals.
          weights v ! i = np_divide (norm_pdf (qvals ! i)) (q_kde (qvals ! i))"
    by (simp add: v_def importance_weights_nth)
  have 3: "rejection_sampling (weights v) g = Inr (samples_to_keep v, generator v)"
    by (simp add: v_def rs)
  have 4: "\<forall>j\<in>set (samples_to_keep v). j < length qvals"
    using rejection_sampling_in_range [OF rs] by (simp add: v_def len list_all_iff)
  have 5: "length (post_q v) = length (samples_to_keep v)" by (simp add: v_def)
  have 6: "\<forall>j<length (samples_to_keep v). post_q v ! j = qvals ! (samples_to_keep v ! j)"
    by (simp add: v_def)
  have 7: "wf_ndarray2 (post_lam v)"
    using assms(3) by (simp add: v_def wf_ndarray2_def list_all_iff)
  have 8: "shape0 (post_lam v) = shape0 lam" and 9: "shape1 (post_lam v) = length (samples_to_keep v)"
    by (simp_all add: v_def)
  have 10: "\<forall>j<length (samples_to_keep v). column (post_lam v) j = column lam (samples_to_keep v ! j)"
    by (simp add: v_def column_def)
  from p 1 2 3 4 5 6 7 8 9 10 show ?thesis by blast
qed

theorem posterior_gathers_accepted_witness:
  "[Fin (1/4), Fin (1/2)] \<noteq> [] \<and>
   wf_ndarray2 \<lparr>shape0 = 1, shape1 = 2, rows = [[Fin 7, Fin 9]]\<rparr> \<and>
   (\<exists>v. posterior (\<lambda>x. Fin 1) (\<lambda>qs. Inr (\<lambda>x. Fin 2)) [Fin (1/4), Fin (1/2)]
          \<lparr>shape0 = 1, shape1 = 2, rows = [[Fin 7, Fin 9]]\<rparr> (draws_of [1/4, 3/4]) = Inr v \<and>
        length (weights v) = 2 \<and>
        length (post_q v) = length (samples_to_keep v) \<and>
        shape0 (post_lam v) = 1 \<and> shape1 (post_lam v) = length (samples_to_keep v))"
proof -
  let ?q = "[Fin (1/4), Fin (1/2)]"
  let ?lam = "\<lparr>shape0 = 1, shape1 = 2, rows = [[Fin 7, Fin 9]]\<rparr>"
  let ?GKDE = "\<lambda>qs :: npfloat list. (Inr (\<lambda>x. Fin 2) :: py_error + (npfloat \<Rightarrow> npfloat))"
  have 1: "?GKDE ?q = Inr (\<lambda>x. Fin 2)" by simp
  have 2: "?q \<noteq> []" by simp
  have 3: "wf_ndarray2 ?lam" by (simp add: wf_ndarray2_def)
  have 4: "shape1 ?lam = length ?q" by simp
  have 5: "0 < shape0 ?lam" by simp
  from posterior_gathers_accepted [OF 1 2 3 4 5, of "\<lambda>x. Fin 1" "draws_of [1/4, 3/4]"]
  obtain v where "posterior (\<lambda>x. Fin 1) ?GKDE ?q ?lam (draws_of [1/4, 3/4]) = Inr v"
    "length (weights v) = length ?q" "length (post_q v) = length (samples_to_keep v)"
    "shape0 (post_lam v) = shape0 ?lam" "shape1 (post_lam v) = length (samples_to_keep v)"
    by blast
  then have "\<exists>v. posterior (\<lambda>x. Fin 1) ?GKDE ?q ?lam (draws_of [1/4, 3/4]) = Inr v \<and>
        length (weights v) = 2 \<and>
        length (post_q v) = length (samples_to_keep v) \<and>
        shape0 (post_lam v) = 1 \<and> shape1 (post_lam v) = length (samples_to_keep v)"
    by (intro exI [of _ v]) simp
  with 2 3 show ?thesis by blast
qed

end
